theory Spec2Isabelle
  imports Complex_Main "HOL-Library.Multiset"
begin

section \<open>Numbers\<close>

text \<open>
  The program computes with JavaScript numbers. A number is modelled as an exact real
  or one of the three non-finite values; rounding and signed zeros are not modelled.
  The non-finite values are kept because the code tests for them
  (\<open>Number.isFinite\<close>) and because an empty bounding box is made of them.
\<close>

datatype number = Num real | PosInf | NegInf | NaN

fun isFinite :: "number \<Rightarrow> bool" where
  "isFinite (Num r) = True"
| "isFinite PosInf = False"
| "isFinite NegInf = False"
| "isFinite NaN = False"

instantiation number :: "{plus, minus, uminus, times, inverse, abs, ord}"
begin

fun plus_number :: "number \<Rightarrow> number \<Rightarrow> number" where
  "plus_number (Num a) (Num b) = Num (a + b)"
| "plus_number NaN b = NaN"
| "plus_number a NaN = NaN"
| "plus_number PosInf NegInf = NaN"
| "plus_number NegInf PosInf = NaN"
| "plus_number PosInf b = PosInf"
| "plus_number NegInf b = NegInf"
| "plus_number a PosInf = PosInf"
| "plus_number a NegInf = NegInf"

fun uminus_number :: "number \<Rightarrow> number" where
  "uminus_number (Num a) = Num (- a)"
| "uminus_number PosInf = NegInf"
| "uminus_number NegInf = PosInf"
| "uminus_number NaN = NaN"

definition minus_number :: "number \<Rightarrow> number \<Rightarrow> number" where
  "minus_number (a::number) b = a + (- b)"

fun times_number :: "number \<Rightarrow> number \<Rightarrow> number" where
  "times_number (Num a) (Num b) = Num (a * b)"
| "times_number NaN b = NaN"
| "times_number a NaN = NaN"
| "times_number (Num a) PosInf = (if a = 0 then NaN else if 0 < a then PosInf else NegInf)"
| "times_number (Num a) NegInf = (if a = 0 then NaN else if 0 < a then NegInf else PosInf)"
| "times_number PosInf (Num b) = (if b = 0 then NaN else if 0 < b then PosInf else NegInf)"
| "times_number NegInf (Num b) = (if b = 0 then NaN else if 0 < b then NegInf else PosInf)"
| "times_number PosInf PosInf = PosInf"
| "times_number PosInf NegInf = NegInf"
| "times_number NegInf PosInf = NegInf"
| "times_number NegInf NegInf = PosInf"

fun divide_number :: "number \<Rightarrow> number \<Rightarrow> number" where
  "divide_number (Num a) (Num b) =
     (if b \<noteq> 0 then Num (a / b)
      else if a = 0 then NaN else if 0 < a then PosInf else NegInf)"
| "divide_number NaN b = NaN"
| "divide_number a NaN = NaN"
| "divide_number (Num a) PosInf = Num 0"
| "divide_number (Num a) NegInf = Num 0"
| "divide_number PosInf (Num b) = (if 0 \<le> b then PosInf else NegInf)"
| "divide_number NegInf (Num b) = (if 0 \<le> b then NegInf else PosInf)"
| "divide_number PosInf PosInf = NaN"
| "divide_number PosInf NegInf = NaN"
| "divide_number NegInf PosInf = NaN"
| "divide_number NegInf NegInf = NaN"

definition inverse_number :: "number \<Rightarrow> number" where
  "inverse_number (a::number) = divide (Num 1) a"

fun abs_number :: "number \<Rightarrow> number" where
  "abs_number (Num a) = Num \<bar>a\<bar>"
| "abs_number PosInf = PosInf"
| "abs_number NegInf = PosInf"
| "abs_number NaN = NaN"

fun less_number :: "number \<Rightarrow> number \<Rightarrow> bool" where
  "less_number (Num a) (Num b) = (a < b)"
| "less_number NaN b = False"
| "less_number a NaN = False"
| "less_number a NegInf = False"
| "less_number PosInf b = False"
| "less_number NegInf b = True"
| "less_number a PosInf = True"

fun less_eq_number :: "number \<Rightarrow> number \<Rightarrow> bool" where
  "less_eq_number (Num a) (Num b) = (a \<le> b)"
| "less_eq_number NaN b = False"
| "less_eq_number a NaN = False"
| "less_eq_number NegInf b = True"
| "less_eq_number a PosInf = True"
| "less_eq_number a NegInf = False"
| "less_eq_number PosInf b = False"

instance ..

end

text \<open>\<open>a === b\<close> on numbers: NaN equals nothing, itself included.\<close>

definition strict_eq :: "number \<Rightarrow> number \<Rightarrow> bool" where
  "strict_eq a b = (a = b \<and> a \<noteq> NaN)"

text \<open>\<open>Math.min\<close> and \<open>Math.max\<close>: NaN if an argument is NaN.\<close>

definition Math_min :: "number \<Rightarrow> number \<Rightarrow> number" where
  "Math_min a b = (if a = NaN \<or> b = NaN then NaN else if a \<le> b then a else b)"

definition Math_max :: "number \<Rightarrow> number \<Rightarrow> number" where
  "Math_max a b = (if a = NaN \<or> b = NaN then NaN else if a \<le> b then b else a)"

text \<open>\<open>Math.PI\<close> is the double nearest to \<open>\<pi>\<close>, a rational number.\<close>

definition Math_PI :: real where
  "Math_PI = 884279719003555 / 281474976710656"

text \<open>\<open>Number.MAX_VALUE\<close>, the largest finite double.\<close>

definition MAX_VALUE :: real where
  "MAX_VALUE = (2 - 1 / 2 ^ 52) * 2 ^ 1023"


section \<open>Data model (types.ts)\<close>

text \<open>
  Field names follow the source. Where a field name is shared by several interfaces
  (\<open>x\<close>, \<open>y\<close>, \<open>width\<close>, \<open>height\<close>) or is a name of the logic (\<open>id\<close>, \<open>start\<close>,
  \<open>end\<close>), a short form of the record's name is put in front; the bounds of a slice
  keep \<open>width\<close> and \<open>height\<close>.
\<close>

record Vector3 =
  vx :: number
  vy :: number
  vz :: number

record LineSegment =
  seg_start :: Vector3
  seg_end :: Vector3

record Bounds =
  minX :: number
  minY :: number
  maxX :: number
  maxY :: number
  width :: number
  height :: number

record Slice =
  slice_id :: number
  zHeight :: number
  segments :: "LineSegment list"
  contours :: "Vector3 list list"
  bounds :: Bounds

text \<open>\<open>PlacedSlice extends Slice\<close>: the slice's own fields and the placement.\<close>

record PlacedSlice = Slice +
  px :: number
  py :: number
  rotation :: number
  sheetId :: number

text \<open>The optional field \<open>unplaced\<close> of a sheet is never set by the packing; it is left out.\<close>

record Sheet =
  sheet_id :: number
  sheet_width :: number
  sheet_height :: number
  sheet_items :: "PlacedSlice list"

datatype unit_of_length = Mm | Inch

record MaterialSettings =
  mat_width :: number
  mat_length :: number
  mat_thickness :: number
  mat_unit :: unit_of_length

section \<open>Guillotine packing (utils/nester.ts)\<close>

record Rect =
  rect_x :: number
  rect_y :: number
  rect_width :: number
  rect_height :: number

record NestResult =
  sheets :: "Sheet list"
  oversized :: "Slice list"

record Bin =
  bin_width :: number
  bin_height :: number
  freeRects :: "Rect list"
  items :: "PlacedSlice list"
  bin_sheetId :: number

text \<open>The constructor of \<open>Bin\<close>: the only free rectangle is the whole sheet.\<close>

definition new_Bin :: "number \<Rightarrow> number \<Rightarrow> number \<Rightarrow> Bin" where
  "new_Bin ident w h =
     \<lparr>bin_width = w, bin_height = h,
      freeRects = [\<lparr>rect_x = Num 0, rect_y = Num 0, rect_width = w, rect_height = h\<rparr>],
      items = [], bin_sheetId = ident\<rparr>"

text \<open>
  \<open>Bin.score\<close>. The source keeps in \<open>bestRect\<close> a reference to an element of
  \<open>freeRects\<close>, and \<open>splitFreeRect\<close> finds that object again with \<open>indexOf\<close>. The
  model carries the element's position with it: a fit holds the two scores, the position
  and the rectangle.
\<close>

record Fit =
  score1 :: number
  score2 :: number
  rect_index :: nat
  rect :: Rect

definition score_step ::
  "number \<Rightarrow> number \<Rightarrow> number \<times> number \<times> (nat \<times> Rect) option \<Rightarrow> nat \<times> Rect
     \<Rightarrow> number \<times> number \<times> (nat \<times> Rect) option" where
  "score_step w h best ir =
     (case best of (bestScore1, bestScore2, bestRect) \<Rightarrow>
      case ir of (i, r) \<Rightarrow>
        if w \<le> rect_width r \<and> h \<le> rect_height r then
          (let leftoverHoriz = \<bar>rect_width r - w\<bar>;
               leftoverVert = \<bar>rect_height r - h\<bar>;
               shortSideFit = Math_min leftoverHoriz leftoverVert;
               longSideFit = Math_max leftoverHoriz leftoverVert
           in if shortSideFit < bestScore1
                 \<or> (strict_eq shortSideFit bestScore1 \<and> longSideFit < bestScore2)
              then (shortSideFit, longSideFit, Some (i, r))
              else best)
        else best)"

definition Bin_score :: "Bin \<Rightarrow> number \<Rightarrow> number \<Rightarrow> Fit option" where
  "Bin_score b w h =
     (case foldl (score_step w h) (Num MAX_VALUE, Num MAX_VALUE, None)
             (enumerate 0 (freeRects b)) of
        (bestScore1, bestScore2, None) \<Rightarrow> None
      | (bestScore1, bestScore2, Some (i, r)) \<Rightarrow>
          Some \<lparr>score1 = bestScore1, score2 = bestScore2, rect_index = i, rect = r\<rparr>)"

text \<open>
  \<open>Bin.splitFreeRect\<close>: the used rectangle leaves the list (\<open>indexOf\<close> and
  \<open>splice\<close>), and up to two rectangles of the remainder are pushed.
\<close>

definition Bin_splitFreeRect :: "Bin \<Rightarrow> nat \<Rightarrow> Rect \<Rightarrow> number \<Rightarrow> number \<Rightarrow> Bin" where
  "Bin_splitFreeRect b idx r w h =
     (let fr = take idx (freeRects b) @ drop (Suc idx) (freeRects b)
      in if strict_eq w (rect_width r) \<and> strict_eq h (rect_height r)
         then b\<lparr>freeRects := fr\<rparr>
         else
           (let wRem = rect_width r - w;
                hRem = rect_height r - h;
                r1 = (if hRem < wRem
                      then \<lparr>rect_x = rect_x r + w, rect_y = rect_y r,
                            rect_width = wRem, rect_height = rect_height r\<rparr>
                      else \<lparr>rect_x = rect_x r, rect_y = rect_y r + h,
                            rect_width = rect_width r, rect_height = hRem\<rparr>);
                r2 = (if hRem < wRem
                      then \<lparr>rect_x = rect_x r, rect_y = rect_y r + h,
                            rect_width = w, rect_height = hRem\<rparr>
                      else \<lparr>rect_x = rect_x r + w, rect_y = rect_y r,
                            rect_width = wRem, rect_height = h\<rparr>);
                fr1 = (if Num 0 < rect_width r1 \<and> Num 0 < rect_height r1
                       then fr @ [r1] else fr);
                fr2 = (if Num 0 < rect_width r2 \<and> Num 0 < rect_height r2
                       then fr1 @ [r2] else fr1)
            in b\<lparr>freeRects := fr2\<rparr>))"

text \<open>
  \<open>Bin.insert\<close> returns false without touching the bin, or true after changing it:
  the model returns \<open>None\<close>, or the changed bin.
\<close>

definition Bin_insert :: "Bin \<Rightarrow> Slice \<Rightarrow> number \<Rightarrow> Bin option" where
  "Bin_insert b slice margin =
     (let w = width (bounds slice) + margin;
          h = height (bounds slice) + margin;
          normalFit = Bin_score b w h;
          rotatedFit = Bin_score b h w;
          choice =
            (case (normalFit, rotatedFit) of
               (Some n, Some r) \<Rightarrow>
                 if score1 r < score1 n
                    \<or> (strict_eq (score1 r) (score1 n) \<and> score2 r < score2 n)
                 then Some (True, r) else Some (False, n)
             | (Some n, None) \<Rightarrow> Some (False, n)
             | (None, Some r) \<Rightarrow> Some (True, r)
             | (None, None) \<Rightarrow> None)
      in case choice of
           None \<Rightarrow> None
         | Some (useRotated, best) \<Rightarrow>
             (let bestRect = rect best;
                  placedW = (if useRotated then h else w);
                  placedH = (if useRotated then w else h);
                  item = Slice.extend slice
                           (PlacedSlice.fields (rect_x bestRect) (rect_y bestRect)
                              (if useRotated then Num (Math_PI / 2) else Num 0) (bin_sheetId b));
                  b1 = b\<lparr>items := items b @ [item]\<rparr>
              in Some (Bin_splitFreeRect b1 (rect_index best) bestRect placedW placedH)))"

datatype strategy = Optimized | Sequential

text \<open>
  \<open>Array.prototype.sort\<close> is stable. For a comparator that orders its arguments
  consistently every stable sort returns the same array, which is computed here by
  inserting the elements one after the other, each one in front of the first element
  that the comparator puts after it.
\<close>

fun sort_insert :: "('a \<Rightarrow> 'a \<Rightarrow> number) \<Rightarrow> 'a \<Rightarrow> 'a list \<Rightarrow> 'a list" where
  "sort_insert cmp a [] = [a]"
| "sort_insert cmp a (b # bs) =
     (if Num 0 < cmp b a then a # b # bs else b # sort_insert cmp a bs)"

definition Array_sort :: "('a \<Rightarrow> 'a \<Rightarrow> number) \<Rightarrow> 'a list \<Rightarrow> 'a list" where
  "Array_sort cmp as = foldl (\<lambda>sorted a. sort_insert cmp a sorted) [] as"

definition compare_slices :: "strategy \<Rightarrow> Slice \<Rightarrow> Slice \<Rightarrow> number" where
  "compare_slices strat a b =
     (if strat = Sequential then slice_id a - slice_id b
      else (let areaA = width (bounds a) * height (bounds a);
                areaB = width (bounds b) * height (bounds b)
            in areaB - areaA))"

definition classify_step ::
  "number \<Rightarrow> number \<Rightarrow> number \<Rightarrow> Slice list \<times> Slice list \<Rightarrow> Slice
     \<Rightarrow> Slice list \<times> Slice list" where
  "classify_step sheetWidth sheetHeight margin acc slice =
     (case acc of (over, fittableSlices) \<Rightarrow>
        (let w = width (bounds slice);
             h = height (bounds slice)
         in if \<not> isFinite w \<or> \<not> isFinite h \<or> w \<le> Num 0 \<or> h \<le> Num 0 then acc
            else
              (let fitsNormal = (w + margin \<le> sheetWidth \<and> h + margin \<le> sheetHeight);
                   fitsRotated = (h + margin \<le> sheetWidth \<and> w + margin \<le> sheetHeight)
               in if \<not> fitsNormal \<and> \<not> fitsRotated
                  then (over @ [slice], fittableSlices)
                  else (over, fittableSlices @ [slice]))))"

text \<open>The loop over the existing bins: the first bin that takes the slice keeps it.\<close>

fun insert_first :: "Bin list \<Rightarrow> Slice \<Rightarrow> number \<Rightarrow> Bin list option" where
  "insert_first [] slice margin = None"
| "insert_first (b # bs) slice margin =
     (case Bin_insert b slice margin of
        Some b' \<Rightarrow> Some (b' # bs)
      | None \<Rightarrow> map_option (Cons b) (insert_first bs slice margin))"

definition pack_step ::
  "number \<Rightarrow> number \<Rightarrow> number \<Rightarrow> Bin list \<times> Slice list \<Rightarrow> Slice
     \<Rightarrow> Bin list \<times> Slice list" where
  "pack_step sheetWidth sheetHeight margin acc slice =
     (case acc of (bins, over) \<Rightarrow>
        (case insert_first bins slice margin of
           Some bins' \<Rightarrow> (bins', over)
         | None \<Rightarrow>
             (let newBin = new_Bin (Num (of_nat (length bins))) sheetWidth sheetHeight
              in case Bin_insert newBin slice margin of
                   Some b' \<Rightarrow> (bins @ [b'], over)
                 | None \<Rightarrow> (bins @ [newBin], over @ [slice]))))"

text \<open>The unit conversion at the head of \<open>nestSlices\<close>.\<close>

definition scaleFactor :: "MaterialSettings \<Rightarrow> number" where
  "scaleFactor material = (if mat_unit material = Inch then Num (254 / 10) else Num 1)"

definition sheetWidth :: "MaterialSettings \<Rightarrow> number" where
  "sheetWidth material = mat_width material * scaleFactor material"

definition sheetHeight :: "MaterialSettings \<Rightarrow> number" where
  "sheetHeight material = mat_length material * scaleFactor material"

definition bin_sheet :: "Bin \<Rightarrow> Sheet" where
  "bin_sheet b = \<lparr>sheet_id = bin_sheetId b, sheet_width = bin_width b,
                   sheet_height = bin_height b, sheet_items = items b\<rparr>"

definition nestSlices :: "Slice list \<Rightarrow> MaterialSettings \<Rightarrow> strategy \<Rightarrow> NestResult" where
  "nestSlices slices material strat =
     (let margin = Num 5;
          (oversized0, fittableSlices) =
             foldl (classify_step (sheetWidth material) (sheetHeight material) margin)
               ([], []) slices;
          sortedSlices = Array_sort (compare_slices strat) fittableSlices;
          (bins, oversized1) =
             foldl (pack_step (sheetWidth material) (sheetHeight material) margin)
               ([], oversized0) sortedSlices
      in \<lparr>sheets = map bin_sheet bins, oversized = oversized1\<rparr>)"


section \<open>Choosing the split of an oversized slice (utils/modifier.ts)\<close>

datatype split_axis = U | V

text \<open>
  The head of \<open>splitSlice\<close>, up to the joint pattern: the axis of the cut and its
  position. The rest of the function clips the contours along that cut.
\<close>

definition splitSlice_cut :: "Slice \<Rightarrow> number \<Rightarrow> number \<Rightarrow> split_axis \<times> number" where
  "splitSlice_cut slice maxW maxH =
     (let w = width (bounds slice);
          h = height (bounds slice)
      in if maxW < w then (U, minX (bounds slice) + w / Num 2)
         else if maxH < h then (V, minY (bounds slice) + h / Num 2)
         else if h < w then (U, minX (bounds slice) + w / Num 2)
         else (V, minY (bounds slice) + h / Num 2))"

section \<open>Slicing a mesh (utils/slicer.ts)\<close>

datatype Axis = X | Y | Z

text \<open>
  The mesh is the position attribute of the non-indexed geometry: the list of its
  vertices, three for each triangle. Reading a vertex past the end of the attribute
  gives undefined components, which are NaN in every computation.
\<close>

definition fromBufferAttribute :: "Vector3 list \<Rightarrow> nat \<Rightarrow> Vector3" where
  "fromBufferAttribute posAttr j =
     (if j < length posAttr then posAttr ! j else \<lparr>vx = NaN, vy = NaN, vz = NaN\<rparr>)"

definition getVal :: "Vector3 \<Rightarrow> Axis \<Rightarrow> number" where
  "getVal v a = (case a of X \<Rightarrow> vx v | Y \<Rightarrow> vy v | Z \<Rightarrow> vz v)"

definition get2D :: "Axis \<Rightarrow> Vector3 \<Rightarrow> number \<times> number" where
  "get2D axis v =
     (if axis = Z then (vx v, vy v) else if axis = Y then (vx v, vz v) else (vy v, vz v))"

text \<open>
  Modelled from the spec: \<open>THREE.Box3.setFromBufferAttribute\<close>, \<open>Vector3.lerpVectors\<close>
  and \<open>Vector3.distanceToSquared\<close> belong to the three.js library, which is not part of
  the sources. The box gives the extent of the mesh, the least and the greatest
  coordinate of its vertices on each axis, and an empty mesh has the box from
  \<open>+Infinity\<close> to \<open>-Infinity\<close>; \<open>lerpVectors\<close> interpolates linearly;
  \<open>distanceToSquared\<close> is the squared Euclidean distance.
\<close>

definition box_min :: "Vector3 list \<Rightarrow> Axis \<Rightarrow> number" where
  "box_min posAttr a = foldl (\<lambda>m v. Math_min m (getVal v a)) PosInf posAttr"

definition box_max :: "Vector3 list \<Rightarrow> Axis \<Rightarrow> number" where
  "box_max posAttr a = foldl (\<lambda>m v. Math_max m (getVal v a)) NegInf posAttr"

definition lerpVectors :: "Vector3 \<Rightarrow> Vector3 \<Rightarrow> number \<Rightarrow> Vector3" where
  "lerpVectors v1 v2 alpha =
     \<lparr>vx = vx v1 + (vx v2 - vx v1) * alpha,
      vy = vy v1 + (vy v2 - vy v1) * alpha,
      vz = vz v1 + (vz v2 - vz v1) * alpha\<rparr>"

definition distanceToSquared :: "Vector3 \<Rightarrow> Vector3 \<Rightarrow> number" where
  "distanceToSquared a b =
     (let dx = vx a - vx b; dy = vy a - vy b; dz = vz a - vz b
      in dx * dx + dy * dy + dz * dz)"

definition EPSILON :: number where
  "EPSILON = Num (1 / 100000)"

text \<open>\<open>Math.round\<close> rounds to the nearest integer, a half upwards.\<close>

fun Math_round :: "number \<Rightarrow> number" where
  "Math_round (Num r) = Num (of_int \<lfloor>r + 1 / 2\<rfloor>)"
| "Math_round PosInf = PosInf"
| "Math_round NegInf = NegInf"
| "Math_round NaN = NaN"

subsection \<open>Linking segments into contours\<close>

text \<open>
  The key of the adjacency map is a string made of three rounded numbers; two keys are
  the same string exactly when the three numbers are the same, so the model keeps the
  three numbers.
\<close>

type_synonym key = "number \<times> number \<times> number"

definition hash :: "number \<Rightarrow> Vector3 \<Rightarrow> key" where
  "hash epsilon v =
     (Math_round (vx v / epsilon), Math_round (vy v / epsilon), Math_round (vz v / epsilon))"

text \<open>
  The adjacency map is a \<open>Map\<close> from keys to lists of segment indices, kept here as the
  list of its entries in the order of their insertion.
\<close>

type_synonym adjacency_map = "(key \<times> nat list) list"

fun map_push :: "adjacency_map \<Rightarrow> key \<Rightarrow> nat \<Rightarrow> adjacency_map" where
  "map_push [] k idx = [(k, [idx])]"
| "map_push ((k', l) # m) k idx =
     (if k' = k then (k', l @ [idx]) # m else (k', l) # map_push m k idx)"

definition adjacency :: "LineSegment list \<Rightarrow> number \<Rightarrow> adjacency_map" where
  "adjacency segs epsilon =
     foldl (\<lambda>m (idx, seg).
              map_push (map_push m (hash epsilon (seg_start seg)) idx)
                (hash epsilon (seg_end seg)) idx)
       [] (enumerate 0 segs)"

text \<open>
  The loop over the candidates of a key: the first unused candidate with an endpoint
  within \<open>epsilon\<close> of the current point, and its other endpoint.
\<close>

fun find_next ::
  "LineSegment list \<Rightarrow> number \<Rightarrow> Vector3 \<Rightarrow> nat set \<Rightarrow> nat list \<Rightarrow> (nat \<times> Vector3) option" where
  "find_next segs epsilon currentPoint used [] = None"
| "find_next segs epsilon currentPoint used (candIdx # rest) =
     (if candIdx \<in> used then find_next segs epsilon currentPoint used rest
      else
        (let candSeg = segs ! candIdx;
             distStart = distanceToSquared (seg_start candSeg) currentPoint;
             distEnd = distanceToSquared (seg_end candSeg) currentPoint;
             sqEps = epsilon * epsilon
         in if distStart < sqEps then Some (candIdx, seg_end candSeg)
            else if distEnd < sqEps then Some (candIdx, seg_start candSeg)
            else find_next segs epsilon currentPoint used rest))"


lemma find_next_Some:
  "find_next segs epsilon currentPoint used cands = Some (c, far) \<Longrightarrow> c \<in> set cands \<and> c \<notin> used"
  by (induction cands) (auto simp: Let_def split: if_splits)

text \<open>
  The \<open>while (finding)\<close> loop: it extends the contour from its trailing point until no
  unused segment continues it, or until the point just pushed is within \<open>epsilon\<close> of
  the first point of the contour.
\<close>

function grow ::
  "LineSegment list \<Rightarrow> number \<Rightarrow> adjacency_map \<Rightarrow> Vector3 list \<Rightarrow> Vector3 \<Rightarrow> nat set
     \<Rightarrow> Vector3 list \<times> nat set" where
  "grow segs epsilon m contour currentPoint used =
     (case map_of m (hash epsilon currentPoint) of
        None \<Rightarrow> (contour, used)
      | Some candidates \<Rightarrow>
          (case find_next segs epsilon currentPoint used candidates of
             None \<Rightarrow> (contour, used)
           | Some (candIdx, far) \<Rightarrow>
               if distanceToSquared far ((contour @ [far]) ! 0) < epsilon * epsilon
               then (contour @ [far], insert candIdx used)
               else grow segs epsilon m (contour @ [far]) far (insert candIdx used)))"
  by pat_completeness auto
termination
proof (relation "measure (\<lambda>(segs, epsilon, m, contour, currentPoint, used).
                            card (set (concat (map snd m)) - used))")
  show "wf (measure (\<lambda>(segs, epsilon, m, contour, currentPoint, used).
                       card (set (concat (map snd m)) - used)))"
    by simp
next
  fix segs :: "LineSegment list" and epsilon m contour currentPoint and used :: "nat set"
    and candidates x candIdx far
  assume look: "map_of m (hash epsilon currentPoint) = Some candidates"
    and next_one: "find_next segs epsilon currentPoint used candidates = Some x"
    and x: "(candIdx, far) = x"
  from look have "(hash epsilon currentPoint, candidates) \<in> set m"
    by (rule map_of_SomeD)
  then have "set candidates \<subseteq> set (concat (map snd m))"
    by force
  moreover from next_one x have "candIdx \<in> set candidates" "candIdx \<notin> used"
    using find_next_Some[of segs epsilon currentPoint used candidates candIdx far] by auto
  ultimately have "candIdx \<in> set (concat (map snd m)) - used"
    by auto
  then have "card (set (concat (map snd m)) - insert candIdx used)
               < card (set (concat (map snd m)) - used)"
    by (intro psubset_card_mono) auto
  then show "((segs, epsilon, m, contour @ [far], far, insert candIdx used),
              (segs, epsilon, m, contour, currentPoint, used))
             \<in> measure (\<lambda>(segs, epsilon, m, contour, currentPoint, used).
                           card (set (concat (map snd m)) - used))"
    by simp
qed

declare grow.simps [simp del]

text \<open>One round of the outer loop of \<open>linkSegments\<close>: a contour from segment \<open>i\<close>.\<close>

definition link_step ::
  "LineSegment list \<Rightarrow> number \<Rightarrow> adjacency_map \<Rightarrow> Vector3 list list \<times> nat set \<Rightarrow> nat
     \<Rightarrow> Vector3 list list \<times> nat set" where
  "link_step segs epsilon m acc i =
     (case acc of (cs, used) \<Rightarrow>
        if i \<in> used then acc
        else
          (let seg = segs ! i;
               (contour, used') =
                  grow segs epsilon m [seg_start seg, seg_end seg] (seg_end seg) (insert i used)
           in (cs @ [contour], used')))"

definition linkSegments :: "LineSegment list \<Rightarrow> number \<Rightarrow> Vector3 list list" where
  "linkSegments segs epsilon =
     fst (foldl (link_step segs epsilon (adjacency segs epsilon)) ([], {}) [0..<length segs])"

subsection \<open>Cutting the triangles by a plane\<close>

text \<open>One edge of the triangle: the crossing point, if the ends lie on opposite sides.\<close>

definition edge_crossing :: "Vector3 \<Rightarrow> Vector3 \<Rightarrow> number \<Rightarrow> number \<Rightarrow> Vector3 list" where
  "edge_crossing pA pB dA dB =
     (if (Num 0 < dA \<and> dB < Num 0) \<or> (dA < Num 0 \<and> Num 0 < dB)
      then [lerpVectors pA pB (dA / (dA - dB))] else [])"

definition dedupe_step :: "Vector3 list \<Rightarrow> Vector3 \<Rightarrow> Vector3 list" where
  "dedupe_step uniquePoints p =
     (if list_ex (\<lambda>existing. distanceToSquared existing p < EPSILON * EPSILON) uniquePoints
      then uniquePoints else uniquePoints @ [p])"

text \<open>The body of the loop over the triangles: the segment of one triangle, if any.\<close>

definition triangle_segment ::
  "Axis \<Rightarrow> number \<Rightarrow> Vector3 \<Rightarrow> Vector3 \<Rightarrow> Vector3 \<Rightarrow> LineSegment list" where
  "triangle_segment axis planeLevel v1 v2 v3 =
     (let d1 = getVal v1 axis - planeLevel;
          d2 = getVal v2 axis - planeLevel;
          d3 = getVal v3 axis - planeLevel
      in if (EPSILON < d1 \<and> EPSILON < d2 \<and> EPSILON < d3)
            \<or> (d1 < - EPSILON \<and> d2 < - EPSILON \<and> d3 < - EPSILON)
         then []
         else
           (let intersections =
                  edge_crossing v1 v2 d1 d2 @ edge_crossing v2 v3 d2 d3 @ edge_crossing v3 v1 d3 d1
                  @ (if \<bar>d1\<bar> < EPSILON then [v1] else [])
                  @ (if \<bar>d2\<bar> < EPSILON then [v2] else [])
                  @ (if \<bar>d3\<bar> < EPSILON then [v3] else []);
                uniquePoints = foldl dedupe_step [] intersections
            in if length uniquePoints = 2
               then [\<lparr>seg_start = uniquePoints ! 0, seg_end = uniquePoints ! 1\<rparr>]
               else []))"

definition level_segments :: "Vector3 list \<Rightarrow> Axis \<Rightarrow> number \<Rightarrow> LineSegment list" where
  "level_segments posAttr axis planeLevel =
     concat (map (\<lambda>t. triangle_segment axis planeLevel
                         (fromBufferAttribute posAttr (3 * t))
                         (fromBufferAttribute posAttr (3 * t + 1))
                         (fromBufferAttribute posAttr (3 * t + 2)))
               [0..<(length posAttr + 2) div 3])"

definition bounds_step ::
  "Axis \<Rightarrow> number \<times> number \<times> number \<times> number \<Rightarrow> LineSegment
     \<Rightarrow> number \<times> number \<times> number \<times> number" where
  "bounds_step axis acc seg =
     (case acc of (loX, loY, hiX, hiY) \<Rightarrow>
      case get2D axis (seg_start seg) of (sx, sy) \<Rightarrow>
      case get2D axis (seg_end seg) of (ex, ey) \<Rightarrow>
        (Math_min (Math_min loX sx) ex, Math_min (Math_min loY sy) ey,
         Math_max (Math_max hiX sx) ex, Math_max (Math_max hiY sy) ey))"

text \<open>
  The body of the loop over the slice planes, for plane \<open>i\<close>: the slice of that level,
  or nothing when no triangle is cut.
\<close>

definition level_slice :: "Vector3 list \<Rightarrow> Axis \<Rightarrow> number \<Rightarrow> number \<Rightarrow> int \<Rightarrow> Slice list" where
  "level_slice posAttr axis lo step i =
     (let planeLevel = lo + Num (of_int i) * step;
          segs = level_segments posAttr axis planeLevel
      in if 0 < length segs then
           (case foldl (bounds_step axis) (PosInf, PosInf, NegInf, NegInf) segs of
              (loX, loY, hiX, hiY) \<Rightarrow>
                [\<lparr>slice_id = Num (of_int i), zHeight = planeLevel, segments = segs,
                  contours = linkSegments segs EPSILON,
                  bounds = \<lparr>minX = loX, minY = loY, maxX = hiX, maxY = hiY,
                             width = hiX - loX, height = hiY - loY\<rparr>\<rparr>])
         else [])"

text \<open>
  \<open>sliceGeometry\<close>. The number of slices is an integer in every caller. The progress
  callback receives the number of the level and does not change the result; it is left
  out.
\<close>

definition sliceGeometry :: "Vector3 list \<Rightarrow> Axis \<Rightarrow> int \<Rightarrow> Slice list" where
  "sliceGeometry posAttr axis numberOfSlices =
     (let lo = box_min posAttr axis;
          hi = box_max posAttr axis;
          range = hi - lo
      in if range \<le> Num 0 \<or> numberOfSlices \<le> 0 then []
         else
           (let step = range / Num (of_int (numberOfSlices + 1))
            in concat (map (level_slice posAttr axis lo step) [1..numberOfSlices])))"


section \<open>Notions used to state and prove the properties\<close>

subsection \<open>Rectangles on a sheet\<close>








definition place :: "Bin \<Rightarrow> Slice \<Rightarrow> number \<Rightarrow> bool \<Rightarrow> nat \<Rightarrow> Bin" where
  "place b s m useRotated idx =
     (let r = freeRects b ! idx;
          w = width (bounds s) + m;
          h = height (bounds s) + m
      in Bin_splitFreeRect
           (b\<lparr>items := items b @ [Slice.extend s (PlacedSlice.fields (rect_x r) (rect_y r)
                (if useRotated then Num (Math_PI / 2) else Num 0) (bin_sheetId b))]\<rparr>)
           idx r (if useRotated then h else w) (if useRotated then w else h))"

subsection \<open>The rectangle of a placed slice\<close>

text \<open>
  The size of the rectangle of a placed slice, margin included: the width and the
  height of its bounds, exchanged when the slice is rotated.
\<close>

definition placedW :: "number \<Rightarrow> PlacedSlice \<Rightarrow> number" where
  "placedW margin p = (if rotation p = Num 0 then width (bounds p) + margin else height (bounds p) + margin)"

definition placedH :: "number \<Rightarrow> PlacedSlice \<Rightarrow> number" where
  "placedH margin p = (if rotation p = Num 0 then height (bounds p) + margin else width (bounds p) + margin)"




subsection \<open>Classes of slices\<close>

text \<open>
  A slice has valid bounds when their width and height are finite and positive. It
  fits in the normal or in the rotated orientation as the pre-check of
  \<open>nestSlices\<close> decides it.
\<close>

definition valid_bounds :: "Slice \<Rightarrow> bool" where
  "valid_bounds s = (isFinite (width (bounds s)) \<and> isFinite (height (bounds s))
      \<and> Num 0 < width (bounds s) \<and> Num 0 < height (bounds s))"

definition fitsNormal :: "number \<Rightarrow> number \<Rightarrow> number \<Rightarrow> Slice \<Rightarrow> bool" where
  "fitsNormal W H margin s = (width (bounds s) + margin \<le> W \<and> height (bounds s) + margin \<le> H)"

definition fitsRotated :: "number \<Rightarrow> number \<Rightarrow> number \<Rightarrow> Slice \<Rightarrow> bool" where
  "fitsRotated W H margin s = (height (bounds s) + margin \<le> W \<and> width (bounds s) + margin \<le> H)"

definition fittable :: "number \<Rightarrow> number \<Rightarrow> number \<Rightarrow> Slice \<Rightarrow> bool" where
  "fittable W H margin s = (fitsNormal W H margin s \<or> fitsRotated W H margin s)"

text \<open>The slices placed on a list of bins, and on the sheets of a result.\<close>

definition placed :: "Bin list \<Rightarrow> Slice list" where
  "placed bins = map Slice.truncate (concat (map items bins))"

definition placed_slices :: "NestResult \<Rightarrow> Slice list" where
  "placed_slices r = map Slice.truncate (concat (map sheet_items (sheets r)))"


subsection \<open>The properties of a layout\<close>



subsection \<open>An example input\<close>

text \<open>
  Four slices for a sheet of 120 by 120: two that fit, the second of them placed
  rotated beside the first, one that is too long for the sheet, and one whose width is not finite.
\<close>

definition demo_slice :: "real \<Rightarrow> number \<Rightarrow> number \<Rightarrow> Slice" where
  "demo_slice i w h =
     \<lparr>slice_id = Num i, zHeight = Num 0, segments = [], contours = [],
      bounds = \<lparr>minX = Num 0, minY = Num 0, maxX = w, maxY = h, width = w, height = h\<rparr>\<rparr>"

definition demo_slices :: "Slice list" where
  "demo_slices = [demo_slice 1 (Num 100) (Num 50), demo_slice 2 (Num 200) (Num 30),
                  demo_slice 3 PosInf (Num 10), demo_slice 4 (Num 50) (Num 100)]"

definition demo_material :: MaterialSettings where
  "demo_material = \<lparr>mat_width = Num 120, mat_length = Num 120, mat_thickness = Num 3, mat_unit = Mm\<rparr>"

definition placed_at :: "Slice \<Rightarrow> number \<Rightarrow> number \<Rightarrow> number \<Rightarrow> number \<Rightarrow> PlacedSlice" where
  "placed_at s a b r i = Slice.extend s (PlacedSlice.fields a b r i)"

text \<open>A material whose sheet has no end in either direction.\<close>

definition endless_material :: MaterialSettings where
  "endless_material = \<lparr>mat_width = PosInf, mat_length = PosInf, mat_thickness = Num 3, mat_unit = Mm\<rparr>"

definition five_squares_input :: "Slice list" where
  "five_squares_input =
     [demo_slice 1 (Num 50) (Num 50), demo_slice 2 (Num 50) (Num 50),
      demo_slice 3 (Num 50) (Num 50), demo_slice 4 (Num 50) (Num 50),
      demo_slice 5 (Num 50) (Num 50)]"

text \<open>
  A cube of side 100 as a mesh of twelve triangles, two for each face, and a flat mesh
  of one triangle.
\<close>

definition vec :: "real \<Rightarrow> real \<Rightarrow> real \<Rightarrow> Vector3" where
  "vec a b c = \<lparr>vx = Num a, vy = Num b, vz = Num c\<rparr>"

definition cube_mesh :: "Vector3 list" where
  "cube_mesh =
    [vec 0 0 0, vec 0 100 0, vec 0 100 100,   vec 0 0 0, vec 0 100 100, vec 0 0 100,
     vec 100 0 0, vec 100 100 0, vec 100 100 100,   vec 100 0 0, vec 100 100 100, vec 100 0 100,
     vec 0 0 0, vec 100 0 0, vec 100 0 100,   vec 0 0 0, vec 100 0 100, vec 0 0 100,
     vec 0 100 0, vec 100 100 0, vec 100 100 100,   vec 0 100 0, vec 100 100 100, vec 0 100 100,
     vec 0 0 0, vec 100 0 0, vec 100 100 0,   vec 0 0 0, vec 100 100 0, vec 0 100 0,
     vec 0 0 100, vec 100 0 100, vec 100 100 100,   vec 0 0 100, vec 100 100 100, vec 0 100 100]"

definition flat_mesh :: "Vector3 list" where
  "flat_mesh = [vec 0 0 5, vec 1 0 5, vec 0 1 5]"

text \<open>
  The contour of the cube at the height \<open>z\<close>, as the linker returns it, the segments
  it is linked from, and the slice.
\<close>

definition ring :: "real \<Rightarrow> Vector3 list" where
  "ring z = [vec 0 100 z, vec 0 z z, vec 0 0 z, vec z 0 z, vec 100 0 z, vec 100 z z,
             vec 100 100 z, vec z 100 z, vec 0 100 z]"

definition ring_segments :: "real \<Rightarrow> LineSegment list" where
  "ring_segments z =
  [\<lparr>seg_start = vec 0 100 z, seg_end = vec 0 z z\<rparr>,
   \<lparr>seg_start = vec 0 z z, seg_end = vec 0 0 z\<rparr>,
   \<lparr>seg_start = vec 100 100 z, seg_end = vec 100 z z\<rparr>,
   \<lparr>seg_start = vec 100 z z, seg_end = vec 100 0 z\<rparr>,
   \<lparr>seg_start = vec 100 0 z, seg_end = vec z 0 z\<rparr>,
   \<lparr>seg_start = vec z 0 z, seg_end = vec 0 0 z\<rparr>,
   \<lparr>seg_start = vec 100 100 z, seg_end = vec z 100 z\<rparr>,
   \<lparr>seg_start = vec z 100 z, seg_end = vec 0 100 z\<rparr>]"

definition cube_slice :: "real \<Rightarrow> real \<Rightarrow> Slice" where
  "cube_slice i z =
     \<lparr>slice_id = Num i, zHeight = Num z, segments = ring_segments z, contours = [ring z],
      bounds = \<lparr>minX = Num 0, minY = Num 0, maxX = Num 100, maxY = Num 100,
                 width = Num 100, height = Num 100\<rparr>\<rparr>"

subsection \<open>Counting the points of the contours\<close>

text \<open>
  The segment indices held by an adjacency map, and the invariant of the outer loop of
  \<open>linkSegments\<close> after \<open>k\<close> of \<open>n\<close> segments: the used indices include the first
  \<open>k\<close>, and the contours have one point for each used segment and one more for each
  contour.
\<close>

definition map_indices :: "adjacency_map \<Rightarrow> nat set" where
  "map_indices m = set (concat (map snd m))"

definition link_inv :: "nat \<Rightarrow> nat \<Rightarrow> Vector3 list list \<times> nat set \<Rightarrow> bool" where
  "link_inv n k acc =
     (finite (snd acc) \<and> {0..<k} \<subseteq> snd acc \<and> snd acc \<subseteq> {0..<n}
      \<and> sum_list (map length (fst acc)) = card (snd acc) + length (fst acc))"

subsection \<open>Runs of \<open>nestSlices\<close>\<close>

text \<open>
  The only step of \<open>nestSlices\<close> that the language leaves to the engine is the sort.
  \<open>sort_result\<close> is what every engine guarantees of \<open>Array.prototype.sort\<close>: the
  result is a permutation of the array, no element is put before one that the
  comparator orders in front of it, and elements that compare equal keep their order.
  \<open>nest_run\<close> is \<open>nestSlices\<close> with any sort of that kind: the results that a run of
  the function may return.
\<close>

definition compares_equal :: "('a \<Rightarrow> 'a \<Rightarrow> number) \<Rightarrow> 'a \<Rightarrow> 'a \<Rightarrow> bool" where
  "compares_equal cmp a b = (\<not> Num 0 < cmp a b \<and> \<not> cmp a b < Num 0)"

definition sort_result :: "('a \<Rightarrow> 'a \<Rightarrow> number) \<Rightarrow> 'a list \<Rightarrow> 'a list \<Rightarrow> bool" where
  "sort_result cmp as res =
     (mset res = mset as
      \<and> sorted_wrt (\<lambda>a b. \<not> Num 0 < cmp a b) res
      \<and> (\<forall>k\<in>set as. filter (compares_equal cmp k) res = filter (compares_equal cmp k) as))"

definition nest_run :: "Slice list \<Rightarrow> MaterialSettings \<Rightarrow> strategy \<Rightarrow> NestResult \<Rightarrow> bool" where
  "nest_run slices material strat result =
     (let margin = Num 5;
          (oversized0, fittableSlices) =
             foldl (classify_step (sheetWidth material) (sheetHeight material) margin)
               ([], []) slices
      in \<exists>sortedSlices.
           sort_result (compare_slices strat) fittableSlices sortedSlices
           \<and> (let (bins, oversized1) =
                      foldl (pack_step (sheetWidth material) (sheetHeight material) margin)
                        ([], oversized0) sortedSlices
                in result = \<lparr>sheets = map bin_sheet bins, oversized = oversized1\<rparr>))"

text \<open>
  The real value of a finite number, the key by which a strategy sorts, and a
  comparator that is the difference of the keys of its arguments on a set.
\<close>

fun val :: "number \<Rightarrow> real" where
  "val (Num r) = r"
| "val PosInf = 0"
| "val NegInf = 0"
| "val NaN = 0"

definition sort_key_of :: "strategy \<Rightarrow> Slice \<Rightarrow> real" where
  "sort_key_of strat s =
     (if strat = Sequential then val (slice_id s)
      else - (val (width (bounds s)) * val (height (bounds s))))"

definition keyed :: "('a \<Rightarrow> 'a \<Rightarrow> number) \<Rightarrow> ('a \<Rightarrow> real) \<Rightarrow> 'a set \<Rightarrow> bool" where
  "keyed cmp key S = (\<forall>a\<in>S. \<forall>b\<in>S. cmp a b = Num (key a - key b))"

definition demo_layout :: NestResult where
  "demo_layout =
     \<lparr>sheets = [\<lparr>sheet_id = Num 0, sheet_width = Num 120, sheet_height = Num 120,
                 sheet_items =
                   [placed_at (demo_slice 1 (Num 100) (Num 50)) (Num 0) (Num 0) (Num 0) (Num 0),
                    placed_at (demo_slice 4 (Num 50) (Num 100)) (Num 0) (Num 55)
                      (Num (Math_PI / 2)) (Num 0)]\<rparr>],
      oversized = [demo_slice 2 (Num 200) (Num 30)]\<rparr>"


section \<open>Packing: proofs\<close>

lemma isFinite_iff: "isFinite a \<longleftrightarrow> (\<exists>r. a = Num r)"
  by (cases a) auto

lemma Num_minus [simp]: "Num a - Num b = Num (a - b)"
  by (simp add: minus_number_def)

lemma minus_PosInf [simp]: "PosInf - Num a = PosInf"
  by (simp add: minus_number_def)







lemma split_other:
  "items (Bin_splitFreeRect b idx r w h) = items b"
  "bin_width (Bin_splitFreeRect b idx r w h) = bin_width b"
  "bin_height (Bin_splitFreeRect b idx r w h) = bin_height b"
  "bin_sheetId (Bin_splitFreeRect b idx r w h) = bin_sheetId b"
  by (simp_all add: Bin_splitFreeRect_def Let_def)

lemma score_fold:
  assumes "\<And>i r. snd (snd best) = Some (i, r) \<Longrightarrow> P i r"
    and "\<And>i r. (i, r) \<in> set irs \<Longrightarrow> w \<le> rect_width r \<Longrightarrow> h \<le> rect_height r \<Longrightarrow> P i r"
    and "snd (snd (foldl (score_step w h) best irs)) = Some (i, r)"
  shows "P i r"
  using assms
proof (induction irs arbitrary: best)
  case Nil
  then show ?case by simp
next
  case (Cons ir irs)
  show ?case
  proof (rule Cons.IH[of "score_step w h best ir"])
    fix j q assume "snd (snd (score_step w h best ir)) = Some (j, q)"
    then show "P j q"
      using Cons.prems(1)[of j q] Cons.prems(2)[of j q]
      by (cases best; cases ir) (auto simp: score_step_def Let_def split: if_splits)
  next
    fix j q assume "(j, q) \<in> set irs" "w \<le> rect_width q" "h \<le> rect_height q"
    then show "P j q" using Cons.prems(2) by simp
  next
    show "snd (snd (foldl (score_step w h) (score_step w h best ir) irs)) = Some (i, r)"
      using Cons.prems(3) by simp
  qed
qed

lemma Bin_score_Some:
  assumes "Bin_score b w h = Some f"
  shows "rect_index f < length (freeRects b) \<and> freeRects b ! rect_index f = rect f
         \<and> w \<le> rect_width (rect f) \<and> h \<le> rect_height (rect f)"
proof -
  let ?res = "foldl (score_step w h) (Num MAX_VALUE, Num MAX_VALUE, None) (enumerate 0 (freeRects b))"
  obtain s1 s2 i r where res: "?res = (s1, s2, Some (i, r))" and f: "rect_index f = i" "rect f = r"
    using assms unfolding Bin_score_def
    by (cases ?res) (auto split: option.splits prod.splits)
  have "i < length (freeRects b) \<and> freeRects b ! i = r \<and> w \<le> rect_width r \<and> h \<le> rect_height r"
  proof (rule score_fold[where best = "(Num MAX_VALUE, Num MAX_VALUE, None)"
         and irs = "enumerate 0 (freeRects b)" and w = w and h = h and i = i and r = r])
    show "snd (snd ?res) = Some (i, r)" using res by simp
  qed (auto simp: in_set_enumerate_eq)
  then show ?thesis using f by simp
qed

lemma Bin_insert_cases:
  assumes "Bin_insert b s m = Some b'"
  obtains best where "Bin_score b (width (bounds s) + m) (height (bounds s) + m) = Some best"
      "b' = place b s m False (rect_index best)" "freeRects b ! rect_index best = rect best"
  | best where "Bin_score b (height (bounds s) + m) (width (bounds s) + m) = Some best"
      "b' = place b s m True (rect_index best)" "freeRects b ! rect_index best = rect best"
proof -
  let ?w = "width (bounds s) + m" and ?h = "height (bounds s) + m"
  show thesis
  proof (cases "Bin_score b ?w ?h")
    case None
    note n = this
    show ?thesis
    proof (cases "Bin_score b ?h ?w")
      case None
      with n assms show ?thesis by (simp add: Bin_insert_def Let_def)
    next
      case (Some r)
      with n assms that(2)[of r] Bin_score_Some[OF Some] show ?thesis
        by (simp add: Bin_insert_def Let_def place_def)
    qed
  next
    case (Some n)
    note n = this
    show ?thesis
    proof (cases "Bin_score b ?h ?w")
      case None
      with n assms that(1)[of n] Bin_score_Some[OF n] show ?thesis
        by (simp add: Bin_insert_def Let_def place_def)
    next
      case (Some r)
      with n assms that(1)[of n] that(2)[of r] Bin_score_Some[OF Some] Bin_score_Some[OF n] show ?thesis
        by (simp add: Bin_insert_def Let_def place_def split: if_splits)
    qed
  qed
qed






lemma item_simps:
  "px (Slice.extend s (PlacedSlice.fields a b c d)) = a"
  "py (Slice.extend s (PlacedSlice.fields a b c d)) = b"
  "rotation (Slice.extend s (PlacedSlice.fields a b c d)) = c"
  "sheetId (Slice.extend s (PlacedSlice.fields a b c d)) = d"
  "bounds (Slice.extend s (PlacedSlice.fields a b c d)) = bounds s"
  "Slice.truncate (Slice.extend s (PlacedSlice.fields a b c d)) = Slice.truncate s"
  by (simp_all add: Slice.extend_def PlacedSlice.fields_def Slice.truncate_def)

lemma truncate_Slice: "Slice.truncate (s :: Slice) = s"
  by (simp add: Slice.truncate_def)



lemma invalid_iff:
  "(\<not> isFinite w \<or> \<not> isFinite h \<or> w \<le> Num 0 \<or> h \<le> Num 0)
     = (\<not> (isFinite w \<and> isFinite h \<and> Num 0 < w \<and> Num 0 < h))"
  by (cases w; cases h) auto

lemma classify_step_eq:
  "classify_step W H margin (over, fit) s =
     (if valid_bounds s then
        (if fittable W H margin s then (over, fit @ [s]) else (over @ [s], fit))
      else (over, fit))"
  unfolding classify_step_def Let_def invalid_iff
  by (simp add: valid_bounds_def fittable_def fitsNormal_def fitsRotated_def)

lemma classify_foldl:
  "foldl (classify_step W H margin) (over, fit) slices =
     (over @ filter (\<lambda>s. valid_bounds s \<and> \<not> fittable W H margin s) slices,
      fit @ filter (\<lambda>s. valid_bounds s \<and> fittable W H margin s) slices)"
  by (induction slices arbitrary: over fit) (simp_all add: classify_step_eq)

lemma mset_sort_insert: "mset (sort_insert cmp a bs) = add_mset a (mset bs)"
  by (induction bs) auto

lemma mset_Array_sort: "mset (Array_sort cmp as) = mset as"
proof -
  have "mset (foldl (\<lambda>sorted a. sort_insert cmp a sorted) acc as) = mset acc + mset as" for acc
    by (induction as arbitrary: acc) (simp_all add: mset_sort_insert)
  then show ?thesis by (simp add: Array_sort_def)
qed

lemma set_Array_sort: "set (Array_sort cmp as) = set as"
  using mset_Array_sort[of cmp as] by (metis set_mset_mset)

lemma items_place:
  "items (place b s m rot idx) = items b @ [Slice.extend s (PlacedSlice.fields (rect_x (freeRects b ! idx)) (rect_y (freeRects b ! idx))
                (if rot then Num (Math_PI / 2) else Num 0) (bin_sheetId b))]"
  by (simp add: place_def Let_def split_other)

lemma Bin_insert_items:
  assumes "Bin_insert b s m = Some b'"
  shows "\<exists>item. items b' = items b @ [item] \<and> Slice.truncate item = s \<and> bin_sheetId b' = bin_sheetId b"
  using assms
  by (cases rule: Bin_insert_cases)
     (simp_all add: items_place item_simps truncate_Slice place_def Let_def split_other)


lemma insert_first_props:
  assumes "insert_first bins s m = Some bins'"
  shows "mset (placed bins') = add_mset s (mset (placed bins))"
    and "length bins' = length bins"
    and "map bin_sheetId bins' = map bin_sheetId bins"
  using assms
proof (induction bins arbitrary: bins')
  case Nil
  { case 1 then show ?case by simp }
  { case 2 then show ?case by simp }
  { case 3 then show ?case by simp }
next
  case (Cons b bs)
  { case 1 
    then show ?case using Cons.IH(1)
      by (auto simp: placed_def split: option.splits dest!: Bin_insert_items) }
  { case 2
    then show ?case using Cons.IH(2)
      by (auto split: option.splits) }
  { case 3
    then show ?case using Cons.IH(3)
      by (auto split: option.splits dest!: Bin_insert_items) }
qed






lemma placed_append [simp]: "placed (bs @ cs) = placed bs @ placed cs"
  by (simp add: placed_def)

lemma placed_new_Bin [simp]: "placed [new_Bin i w h] = []"
  by (simp add: placed_def new_Bin_def)

lemma pack_step_mset:
  "mset (placed (fst (pack_step W H m acc s))) + mset (snd (pack_step W H m acc s))
     = add_mset s (mset (placed (fst acc)) + mset (snd acc))"
proof (cases acc)
  case (Pair bins over)
  show ?thesis
  proof (cases "insert_first bins s m")
    case (Some bins')
    with Pair insert_first_props(1)[OF Some] show ?thesis
      by (simp add: pack_step_def)
  next
    case None
    let ?nb = "new_Bin (Num (of_nat (length bins))) W H"
    show ?thesis
    proof (cases "Bin_insert ?nb s m")
      case N2: None
      with None Pair show ?thesis
        by (simp add: pack_step_def Let_def)
    next
      case (Some b')
      from Bin_insert_items[OF Some] have "placed [b'] = [s]"
        by (auto simp: placed_def new_Bin_def)
      with Some None Pair show ?thesis
        by (simp add: pack_step_def Let_def)
    qed
  qed
qed

lemma pack_foldl_mset:
  "mset (placed (fst (foldl (pack_step W H m) acc xs))) + mset (snd (foldl (pack_step W H m) acc xs))
     = mset (placed (fst acc)) + mset (snd acc) + mset xs"
  by (induction xs arbitrary: acc) (simp_all add: pack_step_mset)

lemma nestSlices_eq:
  "nestSlices slices material strat =
     (let W = sheetWidth material; H = sheetHeight material;
          res = foldl (pack_step W H (Num 5))
                  ([], filter (\<lambda>s. valid_bounds s \<and> \<not> fittable W H (Num 5) s) slices)
                  (Array_sort (compare_slices strat)
                     (filter (\<lambda>s. valid_bounds s \<and> fittable W H (Num 5) s) slices))
      in \<lparr>sheets = map bin_sheet (fst res), oversized = snd res\<rparr>)"
  by (simp add: nestSlices_def classify_foldl Let_def split: prod.splits)

lemma placed_slices_eq: "placed_slices \<lparr>sheets = map bin_sheet bins, oversized = ov\<rparr> = placed bins"
  by (simp add: placed_slices_def placed_def bin_sheet_def comp_def)

lemma nest_conserves_mset:
  "mset (placed_slices (nestSlices slices material strat))
     + mset (oversized (nestSlices slices material strat))
     = mset (filter valid_bounds slices)"
proof -
  let ?W = "sheetWidth material" and ?H = "sheetHeight material"
  let ?over0 = "filter (\<lambda>s. valid_bounds s \<and> \<not> fittable ?W ?H (Num 5) s) slices"
  let ?fit = "filter (\<lambda>s. valid_bounds s \<and> fittable ?W ?H (Num 5) s) slices"
  let ?res = "foldl (pack_step ?W ?H (Num 5)) ([], ?over0) (Array_sort (compare_slices strat) ?fit)"
  have split: "mset ?over0 + mset ?fit = mset (filter valid_bounds slices)"
    by (induction slices) auto
  have "mset (placed (fst ?res)) + mset (snd ?res) = mset ?over0 + mset ?fit"
    using pack_foldl_mset[of "?W" "?H" "Num 5" "([], ?over0)" "Array_sort (compare_slices strat) ?fit"]
    by (simp add: mset_Array_sort placed_def)
  then have "mset (placed (fst ?res)) + mset (snd ?res) = mset (filter valid_bounds slices)"
    using split by simp
  then show ?thesis
    by (simp add: nestSlices_eq Let_def placed_slices_eq)
qed






lemma Bin_insert_None_iff:
  "Bin_insert b s m = None \<longleftrightarrow>
     Bin_score b (width (bounds s) + m) (height (bounds s) + m) = None
     \<and> Bin_score b (height (bounds s) + m) (width (bounds s) + m) = None"
  by (auto simp: Bin_insert_def Let_def split: option.splits)







text \<open>The layout of the example input.\<close>

lemmas nest_eval = nestSlices_def classify_step_def pack_step_def Bin_insert_def Bin_score_def
  score_step_def Bin_splitFreeRect_def new_Bin_def Array_sort_def compare_slices_def
  sheetWidth_def sheetHeight_def scaleFactor_def Math_min_def Math_max_def strict_eq_def
  bin_sheet_def Let_def enumerate_eq_zip MAX_VALUE_def

lemma demo_bounds [simp]:
  "width (bounds (demo_slice i w h)) = w" "height (bounds (demo_slice i w h)) = h"
  by (simp_all add: demo_slice_def)

lemma demo_nest:
  "nestSlices demo_slices demo_material Optimized =
     \<lparr>sheets = [\<lparr>sheet_id = Num 0, sheet_width = Num 120, sheet_height = Num 120,
                 sheet_items = [placed_at (demo_slice 1 (Num 100) (Num 50)) (Num 0) (Num 0) (Num 0) (Num 0),
                                placed_at (demo_slice 4 (Num 50) (Num 100)) (Num 0) (Num 55) (Num (Math_PI / 2)) (Num 0)]\<rparr>],
      oversized = [demo_slice 2 (Num 200) (Num 30)]\<rparr>"
  by (simp add: nest_eval demo_slices_def demo_material_def placed_at_def)

lemma demo_sheet:
  "sheetWidth demo_material = Num 120" "sheetHeight demo_material = Num 120"
  by (simp_all add: sheetWidth_def sheetHeight_def scaleFactor_def demo_material_def)

lemma MAX_VALUE_big: "1000000 < MAX_VALUE"
  by (simp add: MAX_VALUE_def)

lemma small_MAX_VALUE:
  "x \<le> 1000000 \<Longrightarrow> (x < MAX_VALUE) = True"
  "x \<le> 1000000 \<Longrightarrow> (x = MAX_VALUE) = False"
  using MAX_VALUE_big by simp_all

text \<open>
  Claim C9. \<open>nestSlices\<close> conserves its valid inputs: the slices placed on the
  sheets together with the oversized slices are, as multisets, exactly the input slices
  whose bounds have a finite and positive width and height. So each of them appears in
  the output as often as in the input, on a sheet or in the oversized list, whatever the
  material is and also when a slice fails to pack in a new bin.
\<close>

theorem nest_conserves:
  "mset (placed_slices (nestSlices slices material strat))
     + mset (oversized (nestSlices slices material strat))
     = mset (filter valid_bounds slices)
   \<and> (\<forall>s. valid_bounds s \<longrightarrow>
          count_list (placed_slices (nestSlices slices material strat)) s
            + count_list (oversized (nestSlices slices material strat)) s
          = count_list slices s)"
proof (intro conjI allI impI)
  let ?r = "nestSlices slices material strat"
  show m: "mset (placed_slices ?r) + mset (oversized ?r) = mset (filter valid_bounds slices)"
    by (rule nest_conserves_mset)
  fix s assume "valid_bounds s"
  then have "count (mset (filter valid_bounds slices)) s = count (mset slices) s"
    by simp
  with m have "count (mset (placed_slices ?r) + mset (oversized ?r)) s = count (mset slices) s"
    by simp
  then show "count_list (placed_slices ?r) s + count_list (oversized ?r) s = count_list slices s"
    by (simp add: count_mset)
qed

theorem nest_conserves_witness:
  "mset (placed_slices (nestSlices demo_slices demo_material Optimized))
     + mset (oversized (nestSlices demo_slices demo_material Optimized))
   = {#demo_slice 1 (Num 100) (Num 50), demo_slice 2 (Num 200) (Num 30),
       demo_slice 4 (Num 50) (Num 100)#}
   \<and> valid_bounds (demo_slice 4 (Num 50) (Num 100))
   \<and> count_list (placed_slices (nestSlices demo_slices demo_material Optimized))
        (demo_slice 4 (Num 50) (Num 100))
      + count_list (oversized (nestSlices demo_slices demo_material Optimized))
          (demo_slice 4 (Num 50) (Num 100))
      = 1"
proof -
  have v: "valid_bounds (demo_slice 4 (Num 50) (Num 100))"
    by (simp add: valid_bounds_def)
  have c: "count_list demo_slices (demo_slice 4 (Num 50) (Num 100)) = 1"
    by (simp add: demo_slices_def demo_slice_def)
  from nest_conserves[of demo_slices demo_material Optimized] v c
  show ?thesis
    by (simp add: demo_slices_def valid_bounds_def)
qed







text \<open>
  The condition on the sheet cannot be dropped: on a sheet without end in both
  directions the leftover of every rectangle is infinite, \<open>Bin.score\<close> never finds it
  below \<open>Number.MAX_VALUE\<close>, and a slice that fits is sent to the oversized list from a
  new, empty bin.
\<close>

lemma infinite_sheet_takes_nothing:
  assumes "valid_bounds s"
  shows "Bin_insert (new_Bin i PosInf PosInf) s (Num 5) = None"
proof -
  from assms obtain sw sh where s: "width (bounds s) = Num sw" "height (bounds s) = Num sh"
    unfolding valid_bounds_def isFinite_iff by auto
  show ?thesis
    by (simp add: Bin_insert_None_iff s Bin_score_def new_Bin_def score_step_def Let_def
          Math_min_def Math_max_def strict_eq_def minus_number_def)
qed

lemma infinite_sheet_example:
  "nestSlices [demo_slice 1 (Num 50) (Num 50)] endless_material Optimized
     = \<lparr>sheets = [\<lparr>sheet_id = Num 0, sheet_width = PosInf, sheet_height = PosInf, sheet_items = []\<rparr>],
        oversized = [demo_slice 1 (Num 50) (Num 50)]\<rparr>"
  by (simp add: nest_eval endless_material_def minus_number_def)

lemma length5E:
  assumes "length xs = 5"
  obtains a b c d e where "xs = [a, b, c, d, e]"
proof -
  from assms obtain a b c d e where "xs = [a, b, c, d, e]"
    by (auto simp: length_Suc_conv eval_nat_numeral)
  then show ?thesis using that by blast
qed

lemmas nest_eval' = nestSlices_def classify_step_def pack_step_def Bin_insert_def Bin_score_def
  score_step_def Bin_splitFreeRect_def new_Bin_def Array_sort_def compare_slices_def
  Math_min_def Math_max_def strict_eq_def
  bin_sheet_def Let_def enumerate_eq_zip small_MAX_VALUE

text \<open>
  Claim C7. Nesting five slices whose bounds are squares of 50 by 50 on a sheet of 120
  by 120 with the margin 5 and the strategy "optimized" gives exactly two sheets: sheet
  0 holds the first four slices, sheet 1 the fifth, and no slice is oversized.
\<close>

theorem five_squares:
  assumes sq: "\<forall>s\<in>set slices. width (bounds s) = Num 50 \<and> height (bounds s) = Num 50"
    and len: "length slices = 5"
    and W: "sheetWidth material = Num 120" and H: "sheetHeight material = Num 120"
  shows "map (\<lambda>sh. (sheet_id sh, map Slice.truncate (sheet_items sh))) (sheets (nestSlices slices material Optimized))
           = [(Num 0, take 4 slices), (Num 1, drop 4 slices)]
       \<and> oversized (nestSlices slices material Optimized) = []"
proof -
  from len obtain a b c d e where xs: "slices = [a, b, c, d, e]" by (rule length5E)
  with sq have b: "width (bounds a) = Num 50" "height (bounds a) = Num 50"
     "width (bounds b) = Num 50" "height (bounds b) = Num 50"
     "width (bounds c) = Num 50" "height (bounds c) = Num 50"
     "width (bounds d) = Num 50" "height (bounds d) = Num 50"
     "width (bounds e) = Num 50" "height (bounds e) = Num 50"
    by simp_all
  show ?thesis
    unfolding xs nestSlices_def W H
    by (simp add: b nest_eval' item_simps truncate_Slice)
qed

theorem five_squares_witness:
  "list_all (\<lambda>s. width (bounds s) = Num 50 \<and> height (bounds s) = Num 50) five_squares_input
   \<and> length five_squares_input = 5
   \<and> sheetWidth demo_material = Num 120 \<and> sheetHeight demo_material = Num 120
   \<and> map (\<lambda>sh. (sheet_id sh, length (sheet_items sh)))
        (sheets (nestSlices five_squares_input demo_material Optimized)) = [(Num 0, 4), (Num 1, 1)]
   \<and> oversized (nestSlices five_squares_input demo_material Optimized) = []"
proof -
  have sq: "\<forall>s\<in>set five_squares_input. width (bounds s) = Num 50 \<and> height (bounds s) = Num 50"
    by (simp add: five_squares_input_def)
  have len: "length five_squares_input = 5"
    by (simp add: five_squares_input_def)
  have "map (\<lambda>sh. (sheet_id sh, map Slice.truncate (sheet_items sh)))
          (sheets (nestSlices five_squares_input demo_material Optimized))
          = [(Num 0, take 4 five_squares_input), (Num 1, drop 4 five_squares_input)]"
    and ov: "oversized (nestSlices five_squares_input demo_material Optimized) = []"
    using five_squares[OF sq len demo_sheet] by simp_all
  then have "map (\<lambda>sh. (sheet_id sh, length (map Slice.truncate (sheet_items sh))))
          (sheets (nestSlices five_squares_input demo_material Optimized))
          = map (\<lambda>p. (fst p, length (snd p)))
              [(Num 0, take 4 five_squares_input), (Num 1, drop 4 five_squares_input)]"
    by (metis (no_types, lifting) list.map_comp comp_def fst_conv snd_conv map_eq_conv)
  then have "map (\<lambda>sh. (sheet_id sh, length (sheet_items sh)))
          (sheets (nestSlices five_squares_input demo_material Optimized)) = [(Num 0, 4), (Num 1, 1)]"
    by (simp add: len)
  with sq len ov demo_sheet show ?thesis by (simp add: list_all_iff)
qed

subsection \<open>Determinism\<close>

lemma Array_sort_snoc: "Array_sort cmp (as @ [a]) = sort_insert cmp a (Array_sort cmp as)"
  by (simp add: Array_sort_def)

lemma set_sort_insert: "set (sort_insert cmp a bs) = insert a (set bs)"
  by (induction bs) auto

lemma sorted_sort_insert:
  assumes "keyed cmp key (insert a (set bs))" "sorted (map key bs)"
  shows "sorted (map key (sort_insert cmp a bs))"
  using assms
proof (induction bs)
  case Nil
  then show ?case by simp
next
  case (Cons b bs)
  have cmp: "cmp b a = Num (key b - key a)" using Cons.prems(1) by (simp add: keyed_def)
  have k: "keyed cmp key (insert a (set bs))" using Cons.prems(1) by (auto simp: keyed_def)
  show ?case
  proof (cases "Num 0 < cmp b a")
    case True
    with cmp Cons.prems(2) show ?thesis by auto
  next
    case False
    with cmp have "key b \<le> key a" by simp
    with False Cons.prems(2) Cons.IH[OF k] show ?thesis
      by (auto simp: set_sort_insert)
  qed
qed

lemma filter_sort_insert:
  assumes "keyed cmp key (insert a (set bs))" "sorted (map key bs)"
  shows "filter (\<lambda>x. c = key x) (sort_insert cmp a bs)
           = filter (\<lambda>x. c = key x) bs @ (if c = key a then [a] else [])"
  using assms
proof (induction bs)
  case Nil
  then show ?case by simp
next
  case (Cons b bs)
  have cmp: "cmp b a = Num (key b - key a)" using Cons.prems(1) by (simp add: keyed_def)
  have k: "keyed cmp key (insert a (set bs))" using Cons.prems(1) by (auto simp: keyed_def)
  show ?case
  proof (cases "Num 0 < cmp b a")
    case True
    with cmp have lt: "key a < key b" by simp
    have "\<forall>x\<in>set (b # bs). key a < key x"
      using lt Cons.prems(2) by auto
    then have "c = key a \<Longrightarrow> filter (\<lambda>x. c = key x) (b # bs) = []"
      by (auto simp: filter_empty_conv)
    with True show ?thesis by auto
  next
    case False
    with Cons.prems(2) Cons.IH[OF k] show ?thesis by auto
  qed
qed

lemma Array_sort_sorted:
  assumes "keyed cmp key (set as)"
  shows "sorted (map key (Array_sort cmp as))
       \<and> filter (\<lambda>x. c = key x) (Array_sort cmp as) = filter (\<lambda>x. c = key x) as"
  using assms
proof (induction as rule: rev_induct)
  case Nil
  show ?case by (simp add: Array_sort_def)
next
  case (snoc a as)
  have k: "keyed cmp key (set as)" using snoc.prems by (auto simp: keyed_def)
  have k': "keyed cmp key (insert a (set (Array_sort cmp as)))"
    using snoc.prems by (simp add: set_Array_sort)
  from snoc.IH[OF k] have s: "sorted (map key (Array_sort cmp as))"
    and f: "filter (\<lambda>x. c = key x) (Array_sort cmp as) = filter (\<lambda>x. c = key x) as"
    by simp_all
  show ?case
    using sorted_sort_insert[OF k' s] filter_sort_insert[OF k' s, of c] f
    by (simp add: Array_sort_snoc)
qed

lemma keyed_equal:
  assumes "keyed cmp key S" "a \<in> S" "b \<in> S"
  shows "compares_equal cmp a b = (key a = key b)" and "(\<not> Num 0 < cmp a b) = (key a \<le> key b)"
  using assms by (auto simp: keyed_def compares_equal_def)

lemma sort_result_unique:
  assumes k: "keyed cmp key (set as)" and r: "sort_result cmp as res"
  shows "res = sort_key key as"
proof -
  from r have m: "mset res = mset as"
    and s: "sorted_wrt (\<lambda>a b. \<not> Num 0 < cmp a b) res"
    and st: "\<forall>k\<in>set as. filter (compares_equal cmp k) res = filter (compares_equal cmp k) as"
    by (simp_all add: sort_result_def)
  from m have set_eq: "set res = set as" by (metis set_mset_mset)
  have "sort_key key as = res"
  proof (rule properties_for_sort_key)
    show "mset res = mset as" by fact
    show "sorted (map key res)"
      unfolding sorted_map
      by (rule sorted_wrt_mono_rel[OF _ s]) (simp add: keyed_equal(2)[OF k] set_eq)
    fix c assume c: "c \<in> set res"
    then have c': "c \<in> set as" using set_eq by simp
    have "filter (\<lambda>x. key c = key x) res = filter (compares_equal cmp c) res"
      by (rule filter_cong) (simp_all add: keyed_equal(1)[OF k c'] set_eq)
    also have "\<dots> = filter (compares_equal cmp c) as" using st c' by simp
    also have "\<dots> = filter (\<lambda>x. key c = key x) as"
      by (rule filter_cong) (simp_all add: keyed_equal(1)[OF k c'])
    finally show "filter (\<lambda>x. key c = key x) res = filter (\<lambda>x. key c = key x) as" .
  qed
  then show ?thesis by simp
qed

lemma Array_sort_result:
  assumes k: "keyed cmp key (set as)"
  shows "sort_result cmp as (Array_sort cmp as)"
  unfolding sort_result_def
proof (intro conjI ballI)
  show "mset (Array_sort cmp as) = mset as" by (rule mset_Array_sort)
  have "sorted (map key (Array_sort cmp as))" using Array_sort_sorted[OF k] by simp
  then have "sorted_wrt (\<lambda>x y. key x \<le> key y) (Array_sort cmp as)" by (simp add: sorted_map)
  then show "sorted_wrt (\<lambda>a b. \<not> Num 0 < cmp a b) (Array_sort cmp as)"
    by (rule sorted_wrt_mono_rel[rotated]) (simp add: keyed_equal(2)[OF k] set_Array_sort)
  fix c assume c: "c \<in> set as"
  have "filter (compares_equal cmp c) (Array_sort cmp as) = filter (\<lambda>x. key c = key x) (Array_sort cmp as)"
    by (rule filter_cong) (simp_all add: keyed_equal(1)[OF k c] set_Array_sort)
  also have "\<dots> = filter (\<lambda>x. key c = key x) as" using Array_sort_sorted[OF k] by simp
  also have "\<dots> = filter (compares_equal cmp c) as"
    by (rule filter_cong) (simp_all add: keyed_equal(1)[OF k c])
  finally show "filter (compares_equal cmp c) (Array_sort cmp as) = filter (compares_equal cmp c) as" .
qed

lemma sort_result_Array_sort:
  assumes "keyed cmp key (set as)" "sort_result cmp as res"
  shows "res = Array_sort cmp as"
  using sort_result_unique[OF assms] sort_result_unique[OF assms(1) Array_sort_result[OF assms(1)]]
  by simp

lemma keyed_compare_slices:
  assumes "\<forall>s\<in>S. valid_bounds s" "strat = Optimized \<or> (\<forall>s\<in>S. isFinite (slice_id s))"
  shows "keyed (compare_slices strat) (sort_key_of strat) S"
  unfolding keyed_def
proof (intro ballI)
  fix a b assume a: "a \<in> S" and b: "b \<in> S"
  from assms(1) a b obtain wa ha wb hb where
    wh: "width (bounds a) = Num wa" "height (bounds a) = Num ha"
        "width (bounds b) = Num wb" "height (bounds b) = Num hb"
    unfolding valid_bounds_def isFinite_iff by blast
  show "compare_slices strat a b = Num (sort_key_of strat a - sort_key_of strat b)"
  proof (cases strat)
    case Optimized
    then show ?thesis by (simp add: compare_slices_def sort_key_of_def wh Let_def)
  next
    case Sequential
    with assms(2) a b have "isFinite (slice_id a)" "isFinite (slice_id b)" by auto
    then obtain ia ib where "slice_id a = Num ia" "slice_id b = Num ib"
      unfolding isFinite_iff by blast
    with Sequential show ?thesis by (simp add: compare_slices_def sort_key_of_def)
  qed
qed

lemma nest_run_iff:
  assumes "strat = Optimized \<or> (\<forall>s\<in>set slices. isFinite (slice_id s))"
  shows "nest_run slices material strat r \<longleftrightarrow> r = nestSlices slices material strat"
proof -
  let ?W = "sheetWidth material" and ?H = "sheetHeight material"
  let ?over0 = "filter (\<lambda>s. valid_bounds s \<and> \<not> fittable ?W ?H (Num 5) s) slices"
  let ?fit = "filter (\<lambda>s. valid_bounds s \<and> fittable ?W ?H (Num 5) s) slices"
  let ?pack = "\<lambda>sortedSlices. foldl (pack_step ?W ?H (Num 5)) ([], ?over0) sortedSlices"
  let ?res = "\<lambda>sortedSlices. \<lparr>sheets = map bin_sheet (fst (?pack sortedSlices)), oversized = snd (?pack sortedSlices)\<rparr>"
  have k: "keyed (compare_slices strat) (sort_key_of strat) (set ?fit)"
    by (rule keyed_compare_slices) (use assms in auto)
  have run: "nest_run slices material strat r
               \<longleftrightarrow> (\<exists>sortedSlices. sort_result (compare_slices strat) ?fit sortedSlices \<and> r = ?res sortedSlices)"
    by (simp add: nest_run_def classify_foldl Let_def case_prod_unfold)
  have f: "nestSlices slices material strat = ?res (Array_sort (compare_slices strat) ?fit)"
    by (simp add: nestSlices_eq Let_def)
  show ?thesis
    unfolding run f
    using sort_result_Array_sort[OF k] Array_sort_result[OF k] by blast
qed

text \<open>
  Claim C6. \<open>nestSlices\<close> is deterministic: two runs on the same slices, the same
  material and the same strategy, whatever stable sort the engine uses, return the same
  result, which is the value of \<open>nestSlices\<close>: the same sheets with the same placed
  slices at the same positions and rotations, and the same oversized list. For the
  strategy "sequential" the ids of the slices are taken to be finite, so that comparing
  them is an ordering.
\<close>

theorem nestSlices_deterministic:
  assumes "strat = Optimized \<or> (\<forall>s\<in>set slices. isFinite (slice_id s))"
    and "nest_run slices material strat r1" and "nest_run slices material strat r2"
  shows "r1 = r2 \<and> r1 = nestSlices slices material strat
       \<and> length (sheets r1) = length (sheets r2)
       \<and> map sheet_items (sheets r1) = map sheet_items (sheets r2)
       \<and> oversized r1 = oversized r2"
  using assms(2,3) unfolding nest_run_iff[OF assms(1)] by simp

theorem nestSlices_deterministic_witness:
  "nest_run demo_slices demo_material Optimized (nestSlices demo_slices demo_material Optimized)
   \<and> nest_run demo_slices demo_material Optimized demo_layout
   \<and> nestSlices demo_slices demo_material Optimized = demo_layout"
proof -
  have h: "Optimized = Optimized \<or> (\<forall>s\<in>set demo_slices. isFinite (slice_id s))"
    by simp
  have r1: "nest_run demo_slices demo_material Optimized
              (nestSlices demo_slices demo_material Optimized)"
    using nest_run_iff[OF h] by simp
  have r2: "nest_run demo_slices demo_material Optimized demo_layout"
    using nest_run_iff[OF h] demo_nest by (simp add: demo_layout_def)
  from nestSlices_deterministic[OF h r1 r2] r1 r2 show ?thesis
    by simp
qed

section \<open>Splitting and slicing: proofs\<close>

text \<open>What the head of \<open>splitSlice\<close> chooses, case by case.\<close>

lemma splitSlice_cut_choice:
  "fst (splitSlice_cut slice maxW maxH)
     = (if maxW < width (bounds slice) then U
        else if maxH < height (bounds slice) then V
        else if height (bounds slice) < width (bounds slice) then U else V)"
  "snd (splitSlice_cut slice maxW maxH)
     = (case fst (splitSlice_cut slice maxW maxH) of
          U \<Rightarrow> minX (bounds slice) + width (bounds slice) / Num 2
        | V \<Rightarrow> minY (bounds slice) + height (bounds slice) / Num 2)"
  by (simp_all add: splitSlice_cut_def Let_def)

text \<open>
  Claim C3. The claim asks for the longer dimension when both dimensions exceed their
  limits; the code takes the width as soon as it exceeds its limit. For bounds of 200
  by 300 and limits of 100 and 100 the cut is across the width, at its middle 100, and
  not across the longer height.
\<close>

theorem splitSlice_cut_both_exceed:
  "splitSlice_cut (demo_slice 1 (Num 200) (Num 300)) (Num 100) (Num 100) = (U, Num 100)"
  by (simp add: splitSlice_cut_def demo_slice_def)




lemma cube_box: "box_min cube_mesh Z = Num 0" "box_max cube_mesh Z = Num 100"
  by (simp_all add: box_min_def box_max_def cube_mesh_def vec_def getVal_def Math_min_def Math_max_def)



lemma box_flat:
  assumes "\<forall>v\<in>set posAttr. getVal v axis = Num c"
  shows "foldl (\<lambda>m v. Math_min m (getVal v axis)) m0 posAttr = (if posAttr = [] then m0 else Math_min m0 (Num c))"
    and "foldl (\<lambda>m v. Math_max m (getVal v axis)) m1 posAttr = (if posAttr = [] then m1 else Math_max m1 (Num c))"
  using assms
  by (induction posAttr arbitrary: m0 m1) (auto simp: Math_min_def Math_max_def)

text \<open>
  Claim C8. If the requested count is not positive, or if the extent of the mesh on the
  axis is not positive, \<open>sliceGeometry\<close> returns the empty list. The extent is not
  positive for the empty mesh, and for a flat mesh, whose vertices all have the same
  coordinate on the axis.
\<close>

theorem sliceGeometry_empty:
  "(numberOfSlices \<le> 0 \<or> box_max posAttr axis - box_min posAttr axis \<le> Num 0
      \<longrightarrow> sliceGeometry posAttr axis numberOfSlices = [])
   \<and> sliceGeometry [] axis numberOfSlices = []
   \<and> ((\<forall>v\<in>set posAttr. getVal v axis = Num c) \<longrightarrow> sliceGeometry posAttr axis numberOfSlices = [])"
proof (intro conjI impI)
  assume "numberOfSlices \<le> 0 \<or> box_max posAttr axis - box_min posAttr axis \<le> Num 0"
  then show "sliceGeometry posAttr axis numberOfSlices = []"
    by (auto simp: sliceGeometry_def Let_def)
next
  show "sliceGeometry [] axis numberOfSlices = []"
    by (simp add: sliceGeometry_def box_min_def box_max_def minus_number_def)
next
  assume flat: "\<forall>v\<in>set posAttr. getVal v axis = Num c"
  have "box_max posAttr axis - box_min posAttr axis \<le> Num 0"
    using box_flat(1)[OF flat, of PosInf] box_flat(2)[OF flat, of NegInf]
    by (simp add: box_min_def box_max_def Math_min_def Math_max_def minus_number_def)
  then show "sliceGeometry posAttr axis numberOfSlices = []"
    by (simp add: sliceGeometry_def Let_def)
qed

theorem sliceGeometry_empty_witness:
  "(0::int) \<le> 0 \<and> sliceGeometry cube_mesh Z 0 = []
   \<and> sliceGeometry [] Z 4 = []
   \<and> list_all (\<lambda>v. getVal v Z = Num 5) flat_mesh \<and> sliceGeometry flat_mesh Z 4 = []"
proof -
  have flat: "\<forall>v\<in>set flat_mesh. getVal v Z = Num 5"
    by (simp add: flat_mesh_def vec_def getVal_def)
  from sliceGeometry_empty[of 0 cube_mesh Z 5] sliceGeometry_empty[of 4 flat_mesh Z 5] flat
  show ?thesis by (simp add: list_all_iff)
qed

lemma map_push_indices:
  "map_indices (map_push m k idx) = insert idx (map_indices m)"
  unfolding map_indices_def
  by (induction m k idx rule: map_push.induct) auto

lemma adjacency_fold_indices:
  "map_indices (foldl (\<lambda>m (idx, seg).
              map_push (map_push m (hash epsilon (seg_start seg)) idx)
                (hash epsilon (seg_end seg)) idx) m0 irs)
     = map_indices m0 \<union> fst ` set irs"
proof (induction irs arbitrary: m0)
  case Nil
  show ?case by simp
next
  case (Cons ir irs)
  obtain idx seg where ir: "ir = (idx, seg)" by (cases ir)
  show ?case
    by (simp add: ir Cons.IH map_push_indices)
qed

lemma adjacency_indices:
  "set (concat (map snd (adjacency segs epsilon))) \<subseteq> {0..<length segs}"
proof -
  have "map_indices (adjacency segs epsilon) = fst ` set (enumerate 0 segs)"
    by (simp add: adjacency_def adjacency_fold_indices) (simp add: map_indices_def)
  then show ?thesis
    by (auto simp: map_indices_def in_set_enumerate_eq)
qed

lemma grow_count:
  assumes "finite used" "grow segs epsilon m contour currentPoint used = (c', u')"
  shows "finite u' \<and> used \<subseteq> u' \<and> u' \<subseteq> used \<union> set (concat (map snd m))
         \<and> length c' + card used = length contour + card u'"
  using assms
proof (induction segs epsilon m contour currentPoint used rule: grow.induct)
  case (1 segs epsilon m contour currentPoint used)
  show ?case
  proof (cases "map_of m (hash epsilon currentPoint)")
    case None
    with "1.prems" show ?thesis by (simp add: grow.simps)
  next
    case (Some candidates)
    note look = this
    show ?thesis
    proof (cases "find_next segs epsilon currentPoint used candidates")
      case None
      with look "1.prems" show ?thesis by (simp add: grow.simps)
    next
      case (Some x)
      obtain candIdx far where x: "x = (candIdx, far)" by (cases x)
      from Some x find_next_Some[of segs epsilon currentPoint used candidates candIdx far]
      have c: "candIdx \<in> set candidates" "candIdx \<notin> used" by auto
      from look have "(hash epsilon currentPoint, candidates) \<in> set m" by (rule map_of_SomeD)
      with c(1) have cm: "candIdx \<in> set (concat (map snd m))" by force
      have card: "card (insert candIdx used) = Suc (card used)"
        using c(2) "1.prems"(1) by simp
      show ?thesis
      proof (cases "distanceToSquared far ((contour @ [far]) ! 0) < epsilon * epsilon")
        case True
        with look Some x "1.prems" have "c' = contour @ [far]" "u' = insert candIdx used"
          by (simp_all add: grow.simps)
        with "1.prems"(1) cm card show ?thesis by auto
      next
        case False
        with look Some x "1.prems"(2)
        have rec: "grow segs epsilon m (contour @ [far]) far (insert candIdx used) = (c', u')"
          by (simp add: grow.simps)
        have fin: "finite (insert candIdx used)" using "1.prems"(1) by simp
        from "1.IH"[OF look Some x[symmetric] False fin rec] cm card
        show ?thesis by auto
      qed
    qed
  qed
qed

lemma link_step_inv:
  assumes "link_inv (length segs) k acc" "k < length segs"
    and m: "set (concat (map snd m)) \<subseteq> {0..<length segs}"
  shows "link_inv (length segs) (Suc k) (link_step segs epsilon m acc k)"
proof (cases acc)
  case (Pair cs used)
  with assms(1) have inv: "finite used" "{0..<k} \<subseteq> used" "used \<subseteq> {0..<length segs}"
    "sum_list (map length cs) = card used + length cs"
    by (simp_all add: link_inv_def)
  show ?thesis
  proof (cases "k \<in> used")
    case True
    with Pair inv show ?thesis
      by (auto simp: link_step_def link_inv_def less_Suc_eq)
  next
    case False
    obtain c' u' where g: "grow segs epsilon m [seg_start (segs ! k), seg_end (segs ! k)]
                             (seg_end (segs ! k)) (insert k used) = (c', u')"
      by (cases "grow segs epsilon m [seg_start (segs ! k), seg_end (segs ! k)]
                             (seg_end (segs ! k)) (insert k used)")
    have "finite (insert k used)" using inv(1) by simp
    from grow_count[OF this g]
    have gc: "finite u'" "insert k used \<subseteq> u'" "u' \<subseteq> insert k used \<union> set (concat (map snd m))"
      "length c' + card (insert k used) = 2 + card u'"
      by simp_all
    have "card (insert k used) = Suc (card used)" using False inv(1) by simp
    with gc(4) have len: "length c' = Suc (card u') - card used" by simp
    have "card used \<le> card u'" using gc(1,2) by (meson card_mono insert_subset subset_trans subset_insertI)
    with len inv(4) have sum: "sum_list (map length (cs @ [c'])) = card u' + length (cs @ [c'])"
      by simp
    have "insert k used \<union> set (concat (map snd m)) \<subseteq> {0..<length segs}"
      using inv(3) m assms(2) by (simp del: set_concat)
    with gc(3) have sub: "u' \<subseteq> {0..<length segs}" by (rule subset_trans)
    have low: "{0..<Suc k} \<subseteq> u'" using gc(2) inv(2) by (auto simp: less_Suc_eq)
    have "link_step segs epsilon m acc k = (cs @ [c'], u')"
      using Pair False g by (simp add: link_step_def)
    with gc(1) low sub sum show ?thesis
      by (simp add: link_inv_def)
  qed
qed

lemma link_foldl_inv:
  assumes m: "set (concat (map snd m)) \<subseteq> {0..<length segs}" and "k \<le> length segs"
  shows "link_inv (length segs) k (foldl (link_step segs epsilon m) ([], {}) [0..<k])"
  using assms(2)
proof (induction k)
  case 0
  show ?case by (simp add: link_inv_def)
next
  case (Suc k)
  then have "link_inv (length segs) k (foldl (link_step segs epsilon m) ([], {}) [0..<k])" by simp
  from link_step_inv[OF this _ m] Suc.prems show ?case by simp
qed

lemma linkSegments_points:
  "sum_list (map length (linkSegments segs epsilon)) = length segs + length (linkSegments segs epsilon)"
proof -
  let ?res = "foldl (link_step segs epsilon (adjacency segs epsilon)) ([], {}) [0..<length segs]"
  have inv: "link_inv (length segs) (length segs) ?res"
    by (rule link_foldl_inv[OF adjacency_indices]) simp
  then have "snd ?res = {0..<length segs}" by (auto simp: link_inv_def)
  then have "card (snd ?res) = length segs" by simp
  with inv show ?thesis by (simp add: linkSegments_def link_inv_def)
qed

text \<open>The slices of the cube, four planes along the axis Z.\<close>

lemmas seg_eval = level_segments_def triangle_segment_def edge_crossing_def dedupe_step_def
   fromBufferAttribute_def getVal_def lerpVectors_def distanceToSquared_def EPSILON_def Let_def

lemmas link_eval = linkSegments_def link_step_def adjacency_def hash_def grow.simps
   distanceToSquared_def EPSILON_def Let_def enumerate_eq_zip

lemma cube_segments:
  "level_segments cube_mesh Z (Num 20) = ring_segments 20"
  "level_segments cube_mesh Z (Num 40) = ring_segments 40"
  "level_segments cube_mesh Z (Num 60) = ring_segments 60"
  "level_segments cube_mesh Z (Num 80) = ring_segments 80"
  by (simp_all add: seg_eval cube_mesh_def vec_def upt_rec ring_segments_def)

lemma cube_links:
  "linkSegments (ring_segments 20) EPSILON = [ring 20]"
  "linkSegments (ring_segments 40) EPSILON = [ring 40]"
  "linkSegments (ring_segments 60) EPSILON = [ring 60]"
  "linkSegments (ring_segments 80) EPSILON = [ring 80]"
  by (simp_all add: link_eval vec_def ring_def ring_segments_def upt_rec)

lemma cube_bounds:
  "foldl (bounds_step Z) (PosInf, PosInf, NegInf, NegInf) (ring_segments 20) = (Num 0, Num 0, Num 100, Num 100)"
  "foldl (bounds_step Z) (PosInf, PosInf, NegInf, NegInf) (ring_segments 40) = (Num 0, Num 0, Num 100, Num 100)"
  "foldl (bounds_step Z) (PosInf, PosInf, NegInf, NegInf) (ring_segments 60) = (Num 0, Num 0, Num 100, Num 100)"
  "foldl (bounds_step Z) (PosInf, PosInf, NegInf, NegInf) (ring_segments 80) = (Num 0, Num 0, Num 100, Num 100)"
  by (simp_all add: ring_segments_def bounds_step_def get2D_def vec_def Math_min_def Math_max_def)

lemma ring_segments_nonempty: "ring_segments z \<noteq> []"
  by (simp add: ring_segments_def)

lemma cube_slices:
  "sliceGeometry cube_mesh Z 4 = [cube_slice 1 20, cube_slice 2 40, cube_slice 3 60, cube_slice 4 80]"
  by (simp add: sliceGeometry_def cube_box Let_def upto_rec1 level_slice_def
        cube_segments cube_links cube_bounds ring_segments_nonempty cube_slice_def)

text \<open>
  Claim C2, as stated, fails on the cube: the contour of its first slice has 9 points,
  not 4, and its last point is its first point once more.
\<close>

theorem closing_point_counterexample:
  "length (contours (sliceGeometry cube_mesh Z 4 ! 0) ! 0) = 9
   \<and> last (contours (sliceGeometry cube_mesh Z 4 ! 0) ! 0)
       = hd (contours (sliceGeometry cube_mesh Z 4 ! 0) ! 0)"
  by (simp add: cube_slices cube_slice_def ring_def)

text \<open>
  Claim C2, amended. The linker pushes the far endpoint of every segment it links, the
  one that closes a loop included: linking \<open>n\<close> segments into \<open>k\<close> contours gives
  \<open>n + k\<close> points in all, so a loop of \<open>n\<close> segments is a contour of \<open>n + 1\<close> points
  whose last point repeats the first. Slicing the cube of side 100 (twelve triangles)
  with count 4 gives four slices at the heights 20, 40, 60 and 80, with bounds of 100
  by 100, each with one closed contour of 9 points: the corners of the square, one
  point on each side, and the first point again.
\<close>

theorem contours_keep_closing_point:
  "sum_list (map length (linkSegments segs epsilon))
     = length segs + length (linkSegments segs epsilon)
   \<and> map contours (sliceGeometry cube_mesh Z 4) = [[ring 20], [ring 40], [ring 60], [ring 80]]
   \<and> map zHeight (sliceGeometry cube_mesh Z 4) = [Num 20, Num 40, Num 60, Num 80]
   \<and> map (\<lambda>s. (width (bounds s), height (bounds s))) (sliceGeometry cube_mesh Z 4)
       = replicate 4 (Num 100, Num 100)
   \<and> length (ring z) = 9 \<and> last (ring z) = hd (ring z)"
  by (simp add: linkSegments_points cube_slices cube_slice_def ring_def eval_nat_numeral)

theorem contours_keep_closing_point_witness:
  "sum_list (map length (linkSegments (ring_segments 20) EPSILON)) = 8 + 1
   \<and> length (ring 20) = 9 \<and> last (ring 20) = hd (ring 20)"
proof -
  have len: "length (ring_segments 20) = 8"
    by (simp add: ring_segments_def)
  from contours_keep_closing_point[of "ring_segments 20" EPSILON 20]
  have "sum_list (map length (linkSegments (ring_segments 20) EPSILON))
          = length (ring_segments 20) + length (linkSegments (ring_segments 20) EPSILON)"
    and "length (ring 20) = 9" and "last (ring 20) = hd (ring 20)"
    by blast+
  then show ?thesis
    by (simp add: len cube_links)
qed

end
